theory Spec2Isabelle
  imports Main "HOL-Library.Sublist"
begin

section \<open>Channels\<close>

text \<open>
  A Go channel value is either \<open>nil\<close> or refers to a channel made with a capacity.
  A struct field of channel type is modelled as an option: \<open>None\<close> is the nil channel
  (the zero value of a field that no code assigns), \<open>Some c\<close> a channel made by
  \<open>make\<close>, with its capacity and the values its buffer holds, oldest first.
  A send into a buffered channel completes when the buffer has room, a receive when the
  buffer is not empty; on an unbuffered channel both complete together, in a rendezvous.
  No operation on a nil channel is ever ready.
\<close>

record 'a chan =
  cap :: nat
  buf :: "'a list"

definition make_chan :: "nat \<Rightarrow> 'a chan option" where
  "make_chan n = Some \<lparr>cap = n, buf = []\<rparr>"

definition can_buffer :: "'a chan option \<Rightarrow> bool" where
  "can_buffer ch = (case ch of None \<Rightarrow> False | Some c \<Rightarrow> length (buf c) < cap c)"

definition enqueue :: "'a \<Rightarrow> 'a chan option \<Rightarrow> 'a chan option" where
  "enqueue v ch = map_option (\<lambda>c. c\<lparr>buf := buf c @ [v]\<rparr>) ch"

definition front :: "'a chan option \<Rightarrow> 'a option" where
  "front ch = (case ch of None \<Rightarrow> None
                 | Some c \<Rightarrow> (case buf c of [] \<Rightarrow> None | v # _ \<Rightarrow> Some v))"

definition dequeue :: "'a chan option \<Rightarrow> 'a chan option" where
  "dequeue ch = map_option (\<lambda>c. c\<lparr>buf := tl (buf c)\<rparr>) ch"

section \<open>The dynaphore and the goroutines around it\<close>

text \<open>
  The struct \<open>dynaphore\<close>. Its fields \<open>max\<close> and \<open>current\<close> are called \<open>max_chan\<close> and
  \<open>current_chan\<close> here: \<open>max\<close> is a constant of HOL, and \<open>current\<close> is also the name of
  the manager's counter.
\<close>

record dynaphore =
  lock :: "unit chan option"
  unlock :: "unit chan option"
  max_chan :: "int chan option"
  current_chan :: "int chan option"

text \<open>A \<open>LockChan\<close> made by \<open>UpChan\<close> is identified by a number.\<close>

type_synonym handle = nat

text \<open>
  A goroutine that has called a method of the dynaphore is parked at one channel
  operation of that method's body.
\<close>

datatype task =
    Send_lock "handle option"
      \<comment> \<open>\<open>s.lock <- struct{}{}\<close>: in \<open>Up\<close> (\<open>None\<close>), or in the helper of \<open>UpChan\<close>,
          which closes its channel \<open>l\<close> afterwards (\<open>Some l\<close>)\<close>
  | Close_handle handle
      \<comment> \<open>\<open>close(l)\<close> in the helper of \<open>UpChan\<close>\<close>
  | Recv_handle handle
      \<comment> \<open>\<open><-l\<close> in the helper of \<open>DownChan\<close>; \<open>s.Down()\<close> follows\<close>
  | Send_unlock
      \<comment> \<open>\<open>s.unlock <- struct{}{}\<close> in \<open>Down\<close>\<close>
  | Send_max int
      \<comment> \<open>\<open>s.max <- newMax\<close> in \<open>SetMax\<close>\<close>
  | Recv_current
      \<comment> \<open>\<open><-s.current\<close> in \<open>Current\<close>\<close>

text \<open>The manager is either before its loop or at the \<open>select\<close> of an iteration.\<close>

datatype pc = Prologue | Select

text \<open>
  The state of the whole system: the struct with the contents of its channels, the
  manager's program point and its two locals (\<open>max\<close> is called \<open>max_val\<close>), the parked
  goroutines, the lock channels closed so far, the next lock channel to be made, and
  the values that calls of \<open>Current\<close> have returned.
  Go's \<open>int\<close> is modelled by \<open>int\<close>: the only increment is guarded by
  \<open>current < max\<close> and the only decrement by \<open>current > 0\<close>, so neither can leave the
  range of the machine integer (lemma \<open>increment_in_range\<close> below).
\<close>

record system =
  dyn :: dynaphore
  pc :: pc
  current :: int
  max_val :: int
  tasks :: "task list"
  closed_handles :: "handle list"
  fresh :: handle
  answers :: "int list"

text \<open>
  \<open>NewDynaphore\<close> makes three of the four channels, buffers the initial maximum in
  \<open>s.max\<close> (capacity 1, empty: the send completes) and starts the manager. The field
  \<open>current\<close> is not assigned and keeps its zero value, nil. The manager's locals are not
  declared before its prologue runs; they stand at 0 until then.
\<close>

definition NewDynaphore :: "int \<Rightarrow> system" where
  "NewDynaphore m =
     \<lparr>dyn = \<lparr>lock = make_chan 0, unlock = make_chan 1,
             max_chan = enqueue m (make_chan 1), current_chan = None\<rparr>,
      pc = Prologue, current = 0, max_val = 0, tasks = [],
      closed_handles = [], fresh = 0, answers = []\<rparr>"

text \<open>The four cases of the manager's \<open>select\<close>, in the order of the source.\<close>

datatype sel = Case_lock | Case_unlock | Case_current | Case_max

text \<open>
  What can happen next: a goroutine calls a method, a parked goroutine completes an
  operation that does not need the manager, the manager runs its prologue, or the
  manager's \<open>select\<close> takes one of its ready cases.
\<close>

datatype event =
    Up | Down | SetMax int | Current | UpChan | DownChan handle
  | Resume nat
  | Manager_start
  | Manager_select sel

fun is_send_lock :: "task \<Rightarrow> bool" where
  "is_send_lock (Send_lock _) = True"
| "is_send_lock _ = False"

fun is_recv_current :: "task \<Rightarrow> bool" where
  "is_recv_current Recv_current = True"
| "is_recv_current _ = False"

text \<open>What is left of a goroutine whose send on \<open>s.lock\<close> has completed.\<close>

fun after_lock :: "task \<Rightarrow> task list" where
  "after_lock (Send_lock (Some l)) = [Close_handle l]"
| "after_lock _ = []"

definition remove_task :: "nat \<Rightarrow> task list \<Rightarrow> task list" where
  "remove_task i ts = take i ts @ drop (Suc i) ts"

text \<open>
  A parked goroutine goes on without the manager: a send into a buffer with room, the
  closing of a lock channel, a receive from a closed lock channel (after which the
  helper of \<open>DownChan\<close> is at the send of \<open>Down\<close>). The send on the unbuffered \<open>s.lock\<close>
  and the receive from \<open>s.current\<close> complete only in a case of the manager's \<open>select\<close>.
\<close>

definition resume :: "system \<Rightarrow> nat \<Rightarrow> system option" where
  "resume st i =
     (if length (tasks st) \<le> i then None
      else case tasks st ! i of
        Send_unlock \<Rightarrow>
          if can_buffer (unlock (dyn st))
          then Some (st\<lparr>dyn := (dyn st)\<lparr>unlock := enqueue () (unlock (dyn st))\<rparr>,
                         tasks := remove_task i (tasks st)\<rparr>)
          else None
      | Send_max v \<Rightarrow>
          if can_buffer (max_chan (dyn st))
          then Some (st\<lparr>dyn := (dyn st)\<lparr>max_chan := enqueue v (max_chan (dyn st))\<rparr>,
                         tasks := remove_task i (tasks st)\<rparr>)
          else None
      | Close_handle l \<Rightarrow>
          Some (st\<lparr>closed_handles := l # closed_handles st,
                    tasks := remove_task i (tasks st)\<rparr>)
      | Recv_handle l \<Rightarrow>
          if l \<in> set (closed_handles st)
          then Some (st\<lparr>tasks := (tasks st)[i := Send_unlock]\<rparr>)
          else None
      | Send_lock _ \<Rightarrow> None
      | Recv_current \<Rightarrow> None)"

text \<open>The manager's prologue: \<open>current := 0; max := <-s.max\<close>.\<close>

definition manager_start :: "system \<Rightarrow> system option" where
  "manager_start st =
     (if pc st \<noteq> Prologue then None
      else case front (max_chan (dyn st)) of
        None \<Rightarrow> None
      | Some m \<Rightarrow>
          Some (st\<lparr>dyn := (dyn st)\<lparr>max_chan := dequeue (max_chan (dyn st))\<rparr>,
                    current := 0, max_val := m, pc := Select\<rparr>))"

text \<open>
  One iteration of the manager's loop, taking the given case of the \<open>select\<close>; \<open>None\<close>
  when that case is not ready. The local \<open>lock\<close> is \<open>s.lock\<close>, or nil when
  \<open>current >= max\<close>.
\<close>

definition manager :: "system \<Rightarrow> sel \<Rightarrow> system option" where
  "manager st c =
     (if pc st \<noteq> Select then None
      else
        let lock' = (if max_val st \<le> current st then None else lock (dyn st)) in
        case c of
          Case_lock \<Rightarrow>
            (case lock' of
               None \<Rightarrow> None
             | Some _ \<Rightarrow>
                 (case List.extract is_send_lock (tasks st) of
                    None \<Rightarrow> None
                  | Some (before, t, after) \<Rightarrow>
                      Some (st\<lparr>current := current st + 1,
                                tasks := before @ after_lock t @ after\<rparr>)))
        | Case_unlock \<Rightarrow>
            (case front (unlock (dyn st)) of
               None \<Rightarrow> None
             | Some _ \<Rightarrow>
                 Some (st\<lparr>dyn := (dyn st)\<lparr>unlock := dequeue (unlock (dyn st))\<rparr>,
                           current := (if 0 < current st then current st - 1
                                       else current st)\<rparr>))
        | Case_current \<Rightarrow>
            (case current_chan (dyn st) of
               None \<Rightarrow> None
             | Some _ \<Rightarrow>
                 (case List.extract is_recv_current (tasks st) of
                    None \<Rightarrow> None
                  | Some (before, _, after) \<Rightarrow>
                      Some (st\<lparr>tasks := before @ after,
                                answers := answers st @ [current st]\<rparr>)))
        | Case_max \<Rightarrow>
            (case front (max_chan (dyn st)) of
               None \<Rightarrow> None
             | Some m \<Rightarrow>
                 Some (st\<lparr>dyn := (dyn st)\<lparr>max_chan := dequeue (max_chan (dyn st))\<rparr>,
                           max_val := m\<rparr>)))"

text \<open>
  One step of the system. A call parks the calling goroutine (or, for \<open>UpChan\<close> and
  \<open>DownChan\<close>, the helper they start) at the first channel operation of the method.
\<close>

fun step :: "system \<Rightarrow> event \<Rightarrow> system option" where
  "step st Up = Some (st\<lparr>tasks := tasks st @ [Send_lock None]\<rparr>)"
| "step st Down = Some (st\<lparr>tasks := tasks st @ [Send_unlock]\<rparr>)"
| "step st (SetMax newMax) = Some (st\<lparr>tasks := tasks st @ [Send_max newMax]\<rparr>)"
| "step st Current = Some (st\<lparr>tasks := tasks st @ [Recv_current]\<rparr>)"
| "step st UpChan =
     Some (st\<lparr>tasks := tasks st @ [Send_lock (Some (fresh st))], fresh := Suc (fresh st)\<rparr>)"
| "step st (DownChan l) = Some (st\<lparr>tasks := tasks st @ [Recv_handle l]\<rparr>)"
| "step st (Resume i) = resume st i"
| "step st Manager_start = manager_start st"
| "step st (Manager_select c) = manager st c"

fun run :: "system \<Rightarrow> event list \<Rightarrow> system option" where
  "run st [] = Some st"
| "run st (e # es) = (case step st e of None \<Rightarrow> None | Some st' \<Rightarrow> run st' es)"

text \<open>The states the system can be in, from any initial maximum.\<close>

inductive reachable :: "system \<Rightarrow> bool" where
  init: "reachable (NewDynaphore m)"
| next_state: "reachable st \<Longrightarrow> step st e = Some st' \<Longrightarrow> reachable st'"

text \<open>The number of goroutines parked at their send on \<open>s.lock\<close>.\<close>

definition pending :: "system \<Rightarrow> nat" where
  "pending st = length (filter is_send_lock (tasks st))"

text \<open>The number of goroutines parked in \<open>Current\<close>, at their receive from \<open>s.current\<close>.\<close>

definition waiting :: "system \<Rightarrow> nat" where
  "waiting st = length (filter is_recv_current (tasks st))"

text \<open>
  Two states behave alike when they are equal, or when the first runs under a negative
  maximum and the second is the same state under the maximum 0.
\<close>

definition like_zero :: "system \<Rightarrow> system \<Rightarrow> bool" where
  "like_zero a b = (a = b \<or> (max_val a < 0 \<and> 0 \<le> current a \<and> b = a\<lparr>max_val := 0\<rparr>))"

text \<open>
  The loop is quiet when nothing but an acquire can be serviced: the manager is at its
  \<open>select\<close>, no release and no new maximum is buffered, and \<open>s.current\<close> is nil.
\<close>

definition quiet :: "system \<Rightarrow> bool" where
  "quiet st = (pc st = Select \<and> front (unlock (dyn st)) = None \<and>
               front (max_chan (dyn st)) = None \<and> current_chan (dyn st) = None \<and>
               lock (dyn st) \<noteq> None)"

text \<open>
  The number of parked acquirers the spec expects a raised maximum to let through:
  \<open>min(N, newMax - current)\<close>.
\<close>

definition unblocked :: "system \<Rightarrow> int \<Rightarrow> nat" where
  "unblocked st newMax = nat (min (int (pending st)) (newMax - current st))"

section \<open>Sample states\<close>

text \<open>
  States of the running loop used to evaluate the theorems at concrete inputs: the
  manager at its \<open>select\<close> with counter \<open>c\<close> and maximum \<open>m\<close>, the goroutines \<open>ts\<close> parked,
  every buffer empty (\<open>idle\<close>); the same with one release buffered in \<open>s.unlock\<close>
  (\<open>released\<close>), or with the new maximum \<open>v\<close> buffered in \<open>s.max\<close> (\<open>delivered\<close>).
\<close>

definition idle :: "int \<Rightarrow> int \<Rightarrow> task list \<Rightarrow> system" where
  "idle c m ts =
     \<lparr>dyn = \<lparr>lock = make_chan 0, unlock = make_chan 1,
             max_chan = make_chan 1, current_chan = None\<rparr>,
      pc = Select, current = c, max_val = m, tasks = ts,
      closed_handles = [], fresh = 0, answers = []\<rparr>"

definition released :: "int \<Rightarrow> int \<Rightarrow> task list \<Rightarrow> system" where
  "released c m ts =
     (idle c m ts)\<lparr>dyn := (dyn (idle c m ts))\<lparr>unlock := enqueue () (make_chan 1)\<rparr>\<rparr>"

definition delivered :: "int \<Rightarrow> int \<Rightarrow> task list \<Rightarrow> int \<Rightarrow> system" where
  "delivered c m ts v =
     (idle c m ts)\<lparr>dyn := (dyn (idle c m ts))\<lparr>max_chan := enqueue v (make_chan 1)\<rparr>\<rparr>"

text \<open>
  The state after \<open>UpChan\<close> has been granted the only permit and its helper has closed
  the lock channel 0.
\<close>

definition granted :: "system" where
  "granted = (idle 1 1 [])\<lparr>closed_handles := [0], fresh := 1\<rparr>"

section \<open>Basic facts\<close>

lemma run_append:
  "run st (es @ fs) = (case run st es of None \<Rightarrow> None | Some st' \<Rightarrow> run st' fs)"
  by (induction es arbitrary: st) (auto split: option.splits)

lemma run_reachable:
  "reachable st \<Longrightarrow> run st es = Some st' \<Longrightarrow> reachable st'"
proof (induction es arbitrary: st)
  case Nil
  then show ?case by simp
next
  case (Cons e es)
  then show ?case
    by (auto split: option.splits intro: reachable.next_state)
qed

text \<open>The equations that evaluate a step on a concrete state.\<close>

lemmas eval_defs =
  NewDynaphore_def make_chan_def can_buffer_def enqueue_def front_def dequeue_def
  remove_task_def resume_def manager_start_def manager_def pending_def
  idle_def released_def delivered_def granted_def waiting_def
  extract_Nil_code extract_Cons_code Let_def

lemmas step_defs = resume_def manager_start_def manager_def Let_def

lemmas step_splits = if_splits option.splits task.splits sel.splits

text \<open>No step assigns a channel field of the struct.\<close>

lemma step_current_chan:
  "step st e = Some st' \<Longrightarrow> current_chan (dyn st') = current_chan (dyn st)"
  by (cases e) (auto simp: step_defs split: step_splits)

lemma step_lock:
  "step st e = Some st' \<Longrightarrow> lock (dyn st') = lock (dyn st)"
  by (cases e) (auto simp: step_defs split: step_splits)

lemma step_nonneg:
  "step st e = Some st' \<Longrightarrow> 0 \<le> current st \<Longrightarrow> 0 \<le> current st'"
  by (cases e) (auto simp: step_defs split: step_splits)

lemma step_answers:
  "step st e = Some st' \<Longrightarrow> current_chan (dyn st) = None \<Longrightarrow> answers st' = answers st"
  by (cases e) (auto simp: step_defs split: step_splits)

lemma reachable_current_nil: "reachable st \<Longrightarrow> current_chan (dyn st) = None"
  by (induction rule: reachable.induct) (simp_all add: NewDynaphore_def step_current_chan)

lemma reachable_lock: "reachable st \<Longrightarrow> lock (dyn st) = make_chan 0"
  by (induction rule: reachable.induct) (simp_all add: NewDynaphore_def step_lock)

lemma reachable_nonneg: "reachable st \<Longrightarrow> 0 \<le> current st"
  by (induction rule: reachable.induct) (auto simp: NewDynaphore_def dest: step_nonneg)

text \<open>
  The increment cannot overflow: after it the counter is at most the maximum, which is
  a machine integer.
\<close>

lemma increment_in_range:
  "step st (Manager_select Case_lock) = Some st' \<Longrightarrow> max_val st \<le> B \<Longrightarrow> current st' \<le> B"
  by (auto simp: step_defs split: step_splits)

text \<open>Goroutines parked in \<open>Current\<close> are never taken off the list while \<open>s.current\<close> is nil.\<close>

lemma filter_remove_task:
  assumes "i < length ts" "\<not> P (ts ! i)"
  shows "filter P (remove_task i ts) = filter P ts"
proof -
  have "ts = take i ts @ ts ! i # drop (Suc i) ts"
    using assms(1) by (rule id_take_nth_drop)
  then have "filter P ts = filter P (take i ts) @ filter P (ts ! i # drop (Suc i) ts)"
    by (metis filter_append)
  with assms(2) show ?thesis
    by (simp add: remove_task_def)
qed

lemma filter_list_update:
  assumes "i < length ts" "\<not> P (ts ! i)" "\<not> P x"
  shows "filter P (ts[i := x]) = filter P ts"
proof -
  have "ts = take i ts @ ts ! i # drop (Suc i) ts"
    using assms(1) by (rule id_take_nth_drop)
  then have "filter P ts = filter P (take i ts) @ filter P (ts ! i # drop (Suc i) ts)"
    by (metis filter_append)
  with assms show ?thesis
    by (simp add: upd_conv_take_nth_drop)
qed

lemma after_lock_not_recv_current: "filter is_recv_current (after_lock t) = []"
  by (cases t rule: after_lock.cases) simp_all

lemma filter_granted:
  assumes "List.extract is_send_lock ts = Some (before, t, after)"
  shows "filter is_recv_current (before @ after_lock t @ after) = filter is_recv_current ts"
proof -
  from assms have ts: "ts = before @ t # after" and t: "is_send_lock t"
    by (auto simp: extract_Some_iff)
  from t have "\<not> is_recv_current t" by (cases t) simp_all
  with ts show ?thesis by (simp add: after_lock_not_recv_current)
qed

lemma waiting_granted:
  "List.extract is_send_lock ts = Some (before, t, after) \<Longrightarrow>
     length (filter is_recv_current (before @ after_lock t @ after))
       = length (filter is_recv_current ts)"
  by (simp only: filter_granted)

lemma step_waiting:
  assumes "step st e = Some st'" "current_chan (dyn st) = None"
  shows "waiting st' = waiting st + (if e = Current then 1 else 0) \<and>
         e \<noteq> Manager_select Case_current"
proof (cases e)
  case (Resume i)
  with assms show ?thesis
    by (auto simp: step_defs waiting_def filter_remove_task filter_list_update
             split: step_splits)
next
  case (Manager_select c)
  with assms show ?thesis
    by (cases c) (auto simp: step_defs waiting_def split: step_splits dest: waiting_granted)
qed (use assms in \<open>auto simp: step_defs waiting_def split: step_splits\<close>)

lemma run_waiting:
  "run st es = Some st' \<Longrightarrow> current_chan (dyn st) = None \<Longrightarrow>
     waiting st' = waiting st + count_list es Current \<and>
     Manager_select Case_current \<notin> set es \<and> answers st' = answers st"
proof (induction es arbitrary: st)
  case Nil
  then show ?case by simp
next
  case (Cons e es)
  from Cons.prems(1) obtain st1 where e: "step st e = Some st1" and es: "run st1 es = Some st'"
    by (auto split: option.splits)
  from e Cons.prems(2) have nil: "current_chan (dyn st1) = None"
    by (simp add: step_current_chan)
  from Cons.IH [OF es nil] step_waiting [OF e Cons.prems(2)] step_answers [OF e Cons.prems(2)]
  show ?case by auto
qed

text \<open>A negative maximum and the maximum 0 allow the same steps.\<close>

lemma like_zero_refl: "like_zero a a"
  by (simp add: like_zero_def)

lemma rel_option_like_zero_refl: "rel_option like_zero x x"
  by (cases x) (simp_all add: like_zero_refl)

lemma step_negative_max:
  assumes "max_val a < 0" "0 \<le> current a"
  shows "rel_option like_zero (step a e) (step (a\<lparr>max_val := 0\<rparr>) e)"
proof (cases e)
  case (Resume i)
  with assms show ?thesis
    by (auto simp: step_defs like_zero_def split: step_splits)
next
  case Manager_start
  with assms show ?thesis
    by (auto simp: step_defs like_zero_def split: step_splits)
next
  case (Manager_select c)
  with assms show ?thesis
    by (cases c) (auto simp: step_defs like_zero_def split: step_splits)
qed (use assms in \<open>simp_all add: like_zero_def\<close>)

lemma step_like_zero:
  assumes "like_zero a b"
  shows "rel_option like_zero (step a e) (step b e)"
proof (cases "a = b")
  case True
  then show ?thesis by (simp add: rel_option_like_zero_refl)
next
  case False
  with assms have "max_val a < 0" "0 \<le> current a" "b = a\<lparr>max_val := 0\<rparr>"
    by (auto simp: like_zero_def)
  then show ?thesis using step_negative_max [of a e] by simp
qed

lemma run_like_zero:
  "like_zero a b \<Longrightarrow> rel_option like_zero (run a es) (run b es)"
proof (induction es arbitrary: a b)
  case Nil
  then show ?case by simp
next
  case (Cons e es)
  from step_like_zero [OF Cons.prems, of e] show ?case
    by (cases "step a e"; cases "step b e") (simp_all add: Cons.IH)
qed

text \<open>A quiet loop services acquires, one per iteration, and nothing else.\<close>

lemma after_lock_not_send_lock: "filter is_send_lock (after_lock t) = []"
  by (cases t rule: after_lock.cases) simp_all

lemma pending_granted:
  assumes "List.extract is_send_lock ts = Some (before, t, after)"
  shows "Suc (length (filter is_send_lock (before @ after_lock t @ after)))
           = length (filter is_send_lock ts)"
proof -
  from assms have ts: "ts = before @ t # after" and t: "is_send_lock t"
    and b: "\<forall>x\<in>set before. \<not> is_send_lock x"
    by (auto simp: extract_Some_iff)
  from b have "filter is_send_lock before = []" by (simp add: filter_empty_conv)
  with ts t show ?thesis by (simp add: after_lock_not_send_lock)
qed

lemma extract_pending:
  "0 < length (filter is_send_lock ts) \<Longrightarrow> List.extract is_send_lock ts \<noteq> None"
  by (auto simp: extract_None_iff filter_empty_conv)

lemma grant_step:
  assumes "quiet st" "current st < max_val st" "0 < pending st"
  shows "\<exists>st'. step st (Manager_select Case_lock) = Some st' \<and> quiet st' \<and>
           current st' = current st + 1 \<and> max_val st' = max_val st \<and>
           Suc (pending st') = pending st"
proof -
  from assms(3) obtain before t after
    where ex: "List.extract is_send_lock (tasks st) = Some (before, t, after)"
    using extract_pending [of "tasks st"] by (auto simp: pending_def)
  let ?st' = "st\<lparr>current := current st + 1, tasks := before @ after_lock t @ after\<rparr>"
  from assms(1,2) ex have "step st (Manager_select Case_lock) = Some ?st'"
    by (auto simp: manager_def quiet_def)
  moreover from assms(1) have "quiet ?st'" by (simp add: quiet_def)
  moreover from pending_granted [OF ex] have "Suc (pending ?st') = pending st"
    by (simp add: pending_def)
  ultimately show ?thesis by simp
qed

lemma quiet_only_lock:
  assumes "quiet st" "step st (Manager_select c) = Some st'"
  shows "c = Case_lock \<and> current st < max_val st \<and> 0 < pending st"
proof -
  from assms have c: "c = Case_lock" and lt: "current st < max_val st"
    by (cases c; auto simp: manager_def quiet_def split: if_splits option.splits)+
  with assms(2) have "List.extract is_send_lock (tasks st) \<noteq> None"
    by (auto simp: manager_def split: if_splits option.splits)
  then have "0 < pending st"
    by (auto simp: extract_None_iff pending_def filter_empty_conv)
  with c lt show ?thesis by simp
qed

lemma run_grants:
  "quiet st \<Longrightarrow> int k \<le> max_val st - current st \<Longrightarrow> k \<le> pending st \<Longrightarrow>
     \<exists>st'. run st (replicate k (Manager_select Case_lock)) = Some st' \<and> quiet st' \<and>
       current st' = current st + int k \<and> max_val st' = max_val st \<and>
       pending st' + k = pending st"
proof (induction k arbitrary: st)
  case 0
  then show ?case by simp
next
  case (Suc k)
  from Suc.prems have "current st < max_val st" "0 < pending st" by simp_all
  from grant_step [OF Suc.prems(1) this] obtain st1
    where s: "step st (Manager_select Case_lock) = Some st1" and q: "quiet st1"
      and c: "current st1 = current st + 1" and m: "max_val st1 = max_val st"
      and p: "Suc (pending st1) = pending st"
    by blast
  from Suc.prems c m p have "int k \<le> max_val st1 - current st1" "k \<le> pending st1"
    by simp_all
  from Suc.IH [OF q this] obtain st' where
    "run st1 (replicate k (Manager_select Case_lock)) = Some st'" "quiet st'"
    "current st' = current st1 + int k" "max_val st' = max_val st1"
    "pending st' + k = pending st1"
    by blast
  with s c m p show ?case by simp
qed

lemma run_quiet_only_grants:
  "quiet st \<Longrightarrow> run st (map Manager_select cs) = Some st' \<Longrightarrow>
     cs = replicate (length cs) Case_lock \<and>
     length cs \<le> nat (max_val st - current st) \<and> length cs \<le> pending st"
proof (induction cs arbitrary: st)
  case Nil
  then show ?case by simp
next
  case (Cons c cs)
  from Cons.prems(2) obtain st1 where s: "step st (Manager_select c) = Some st1"
    and r: "run st1 (map Manager_select cs) = Some st'"
    by (auto split: option.splits)
  from quiet_only_lock [OF Cons.prems(1) s]
  have c: "c = Case_lock" and lt: "current st < max_val st" and pos: "0 < pending st"
    by simp_all
  from grant_step [OF Cons.prems(1) lt pos] s c
  have q: "quiet st1" and c1: "current st1 = current st + 1"
    and m1: "max_val st1 = max_val st" and p1: "Suc (pending st1) = pending st"
    by auto
  from Cons.IH [OF q r] c c1 m1 p1 lt show ?case by auto
qed

lemma quiet_stuck:
  "quiet st \<Longrightarrow> max_val st \<le> current st \<or> pending st = 0 \<Longrightarrow>
     step st (Manager_select c) = None"
  using quiet_only_lock [of st c] by (cases "step st (Manager_select c)") auto

section \<open>The arbitration loop, one request at a time\<close>

text \<open>
  C1. In every state, the \<open>select\<close> takes its acquire case only when
  \<open>current < max\<close>: when \<open>current \<ge> max\<close> the case is not ready, whatever goroutines are
  parked at their send on \<open>s.lock\<close>; and right after an acquire has been serviced,
  \<open>current \<le> max\<close>, with the maximum in force at that moment.
\<close>

theorem acquire_only_below_max:
  "(max_val st \<le> current st \<longrightarrow> step st (Manager_select Case_lock) = None) \<and>
   (\<forall>st'. step st (Manager_select Case_lock) = Some st' \<longrightarrow>
      current st < max_val st \<and> current st' \<le> max_val st' \<and> max_val st' = max_val st)"
  by (auto simp: step_defs split: step_splits)

theorem acquire_only_below_max_witness:
  "run (NewDynaphore 1) [Manager_start, Up, Manager_select Case_lock, Up]
     = Some (idle 1 1 [Send_lock None]) \<and>
   pending (idle 1 1 [Send_lock None]) = 1 \<and>
   step (idle 1 1 [Send_lock None]) (Manager_select Case_lock) = None \<and>
   step (idle 0 1 [Send_lock None]) (Manager_select Case_lock) = Some (idle 1 1 []) \<and>
   current (idle 1 1 []) \<le> max_val (idle 1 1 [])"
  using acquire_only_below_max [of "idle 1 1 [Send_lock None]"]
        acquire_only_below_max [of "idle 0 1 [Send_lock None]"]
  by (simp add: eval_defs)

text \<open>
  C2. In every reachable state \<open>current \<ge> 0\<close>; and when the \<open>select\<close> services a release
  while \<open>current = 0\<close>, the counter stays at 0.
\<close>

theorem current_never_negative:
  "reachable st \<Longrightarrow>
     0 \<le> current st \<and>
     (\<forall>st'. current st = 0 \<and> step st (Manager_select Case_unlock) = Some st'
        \<longrightarrow> current st' = 0)"
  by (auto simp: reachable_nonneg step_defs split: step_splits)

theorem current_never_negative_witness:
  "run (NewDynaphore 3) [Manager_start, Down, Resume 0] = Some (released 0 3 []) \<and>
   reachable (released 0 3 []) \<and> current (released 0 3 []) = 0 \<and>
   step (released 0 3 []) (Manager_select Case_unlock) = Some (idle 0 3 []) \<and>
   current (idle 0 3 []) = 0"
proof -
  have r: "run (NewDynaphore 3) [Manager_start, Down, Resume 0] = Some (released 0 3 [])"
    by (simp add: eval_defs)
  have "reachable (released 0 3 [])"
    by (rule run_reachable [OF reachable.init r])
  with r current_never_negative [of "released 0 3 []"] show ?thesis
    by (simp add: eval_defs)
qed

text \<open>
  C5. A serviced acquire, which needs \<open>current < max\<close>, adds exactly 1 to \<open>current\<close>; a
  serviced release with \<open>current > 0\<close> takes exactly 1 from it.
\<close>

theorem serviced_request_delta:
  "(step st (Manager_select Case_lock) = Some st' \<longrightarrow>
      current st < max_val st \<and> current st' = current st + 1) \<and>
   (0 < current st \<and> step st (Manager_select Case_unlock) = Some st'' \<longrightarrow>
      current st'' = current st - 1)"
  by (auto simp: step_defs split: step_splits)

theorem serviced_request_delta_witness:
  "step (idle 0 1 [Send_lock None]) (Manager_select Case_lock) = Some (idle 1 1 []) \<and>
   current (idle 1 1 []) = current (idle 0 1 [Send_lock None]) + 1 \<and>
   0 < current (released 2 3 []) \<and>
   step (released 2 3 []) (Manager_select Case_unlock) = Some (idle 1 3 []) \<and>
   current (idle 1 3 []) = current (released 2 3 []) - 1"
  using serviced_request_delta [of "idle 0 1 [Send_lock None]" "idle 1 1 []"]
        serviced_request_delta [of "released 2 3 []" _ "idle 1 3 []"]
  by (simp add: eval_defs)

text \<open>
  C6. When a new maximum \<open>v\<close> has been delivered, whatever \<open>v\<close> and whatever the state of
  the loop, the \<open>select\<close> can service it, and doing so sets \<open>max\<close> to \<open>v\<close> and leaves
  \<open>current\<close> and the parked goroutines as they were: lowering the maximum revokes
  nothing.
\<close>

theorem update_max_keeps_current:
  "pc st = Select \<Longrightarrow> front (max_chan (dyn st)) = Some v \<Longrightarrow>
     \<exists>st'. step st (Manager_select Case_max) = Some st' \<and>
           max_val st' = v \<and> current st' = current st \<and> tasks st' = tasks st"
  by (auto simp: step_defs split: step_splits)

theorem update_max_keeps_current_witness:
  "run (NewDynaphore 3)
     [Manager_start, Up, Up, Up, Manager_select Case_lock, Manager_select Case_lock,
      Manager_select Case_lock, SetMax 2, Resume 0] = Some (delivered 3 3 [] 2) \<and>
   front (max_chan (dyn (delivered 3 3 [] 2))) = Some 2 \<and>
   step (delivered 3 3 [] 2) (Manager_select Case_max) = Some (idle 3 2 []) \<and>
   max_val (idle 3 2 []) = 2 \<and> current (idle 3 2 []) = 3"
  using update_max_keeps_current [of "delivered 3 3 [] 2" 2]
  by (simp add: eval_defs)

text \<open>
  C8. In every reachable state whose maximum is 0 the acquire case is not ready,
  whatever the value of \<open>current\<close>: no acquire is serviced before the maximum is raised.
\<close>

theorem zero_max_blocks_acquire:
  "reachable st \<Longrightarrow> max_val st = 0 \<Longrightarrow> step st (Manager_select Case_lock) = None"
  using reachable_nonneg [of st] by (auto simp: step_defs split: step_splits)

theorem zero_max_blocks_acquire_witness:
  "run (NewDynaphore 0) [Manager_start, Up] = Some (idle 0 0 [Send_lock None]) \<and>
   reachable (idle 0 0 [Send_lock None]) \<and> max_val (idle 0 0 [Send_lock None]) = 0 \<and>
   pending (idle 0 0 [Send_lock None]) = 1 \<and>
   step (idle 0 0 [Send_lock None]) (Manager_select Case_lock) = None"
proof -
  have r: "run (NewDynaphore 0) [Manager_start, Up] = Some (idle 0 0 [Send_lock None])"
    by (simp add: eval_defs)
  have "reachable (idle 0 0 [Send_lock None])"
    by (rule run_reachable [OF reachable.init r])
  with r zero_max_blocks_acquire [of "idle 0 0 [Send_lock None]"] show ?thesis
    by (simp add: eval_defs)
qed

section \<open>Queries\<close>

text \<open>
  C9. \<open>NewDynaphore\<close> leaves the field \<open>current\<close> nil and no step assigns it. So after any
  sequence of events from a new dynaphore the field is nil, the query case of the
  \<open>select\<close> is not ready and was never taken, every call of \<open>Current\<close> made so far is
  still parked at its receive, and none has returned a value.
\<close>

theorem current_never_answered:
  "run (NewDynaphore m) es = Some st \<Longrightarrow>
     current_chan (dyn st) = None \<and>
     step st (Manager_select Case_current) = None \<and>
     Manager_select Case_current \<notin> set es \<and>
     waiting st = count_list es Current \<and>
     answers st = []"
proof -
  assume r: "run (NewDynaphore m) es = Some st"
  have nil0: "current_chan (dyn (NewDynaphore m)) = None"
    by (simp add: NewDynaphore_def)
  have "reachable st"
    by (rule run_reachable [OF reachable.init r])
  then have nil: "current_chan (dyn st) = None"
    by (rule reachable_current_nil)
  then have "step st (Manager_select Case_current) = None"
    by (simp add: manager_def)
  with nil run_waiting [OF r nil0] show ?thesis
    by (simp add: NewDynaphore_def waiting_def)
qed

theorem current_never_answered_witness:
  "run (NewDynaphore 3) [Manager_start, Current, Up, Manager_select Case_lock, Current]
     = Some (idle 1 3 [Recv_current, Recv_current]) \<and>
   step (idle 1 3 [Recv_current, Recv_current]) (Manager_select Case_current) = None \<and>
   waiting (idle 1 3 [Recv_current, Recv_current]) = 2 \<and>
   answers (idle 1 3 [Recv_current, Recv_current]) = []"
proof -
  have r: "run (NewDynaphore 3) [Manager_start, Current, Up, Manager_select Case_lock, Current]
     = Some (idle 1 3 [Recv_current, Recv_current])"
    by (simp add: eval_defs)
  from r current_never_answered [OF r] show ?thesis
    by (simp add: eval_defs)
qed

text \<open>
  C4. The claim that every call of \<open>Current\<close> returns fails on the code: after
  \<open>NewDynaphore(3)\<close> and one call of \<open>Current\<close>, the caller is parked, nothing the
  manager or the goroutine can do is ready, and no value has been returned.
\<close>

theorem current_call_blocks:
  "run (NewDynaphore 3) [Manager_start, Current] = Some (idle 0 3 [Recv_current]) \<and>
   step (idle 0 3 [Recv_current]) (Manager_select Case_current) = None \<and>
   step (idle 0 3 [Recv_current]) (Resume 0) = None \<and>
   step (idle 0 3 [Recv_current]) (Manager_select Case_lock) = None \<and>
   step (idle 0 3 [Recv_current]) (Manager_select Case_unlock) = None \<and>
   step (idle 0 3 [Recv_current]) (Manager_select Case_max) = None \<and>
   answers (idle 0 3 [Recv_current]) = []"
  by (simp add: eval_defs)

section \<open>Negative maxima\<close>

text \<open>
  C10. In every reachable state whose maximum is negative, whether it was the initial
  maximum or was delivered by \<open>SetMax\<close>, the acquire case is not ready; and from such a
  state every sequence of events does what it does from the same state with maximum
  0: both are possible or both are not, and the states reached are alike.
\<close>

theorem negative_max_like_zero:
  "reachable st \<Longrightarrow> max_val st < 0 \<Longrightarrow>
     step st (Manager_select Case_lock) = None \<and>
     (\<forall>es. rel_option like_zero (run st es) (run (st\<lparr>max_val := 0\<rparr>) es))"
proof -
  assume r: "reachable st" and neg: "max_val st < 0"
  from r have nonneg: "0 \<le> current st" by (rule reachable_nonneg)
  with neg have "step st (Manager_select Case_lock) = None"
    by (simp add: manager_def)
  moreover from neg nonneg have "like_zero st (st\<lparr>max_val := 0\<rparr>)"
    by (simp add: like_zero_def)
  ultimately show ?thesis
    by (simp add: run_like_zero)
qed

theorem negative_max_like_zero_witness:
  "run (NewDynaphore (- 2)) [Manager_start, Up] = Some (idle 0 (- 2) [Send_lock None]) \<and>
   run (NewDynaphore 1) [Manager_start, SetMax (- 2), Resume 0, Manager_select Case_max, Up]
     = Some (idle 0 (- 2) [Send_lock None]) \<and>
   reachable (idle 0 (- 2) [Send_lock None]) \<and>
   pending (idle 0 (- 2) [Send_lock None]) = 1 \<and>
   step (idle 0 (- 2) [Send_lock None]) (Manager_select Case_lock) = None \<and>
   run (idle 0 (- 2) [Send_lock None]) [Down, Resume 1, Manager_select Case_unlock]
     = Some (idle 0 (- 2) [Send_lock None]) \<and>
   run (idle 0 0 [Send_lock None]) [Down, Resume 1, Manager_select Case_unlock]
     = Some (idle 0 0 [Send_lock None]) \<and>
   like_zero (idle 0 (- 2) [Send_lock None]) (idle 0 0 [Send_lock None])"
proof -
  have r: "run (NewDynaphore (- 2)) [Manager_start, Up] = Some (idle 0 (- 2) [Send_lock None])"
    by (simp add: eval_defs)
  have re: "reachable (idle 0 (- 2) [Send_lock None])"
    by (rule run_reachable [OF reachable.init r])
  have neg: "max_val (idle 0 (- 2) [Send_lock None]) < 0"
    by (simp add: idle_def)
  from negative_max_like_zero [OF re neg]
  have "step (idle 0 (- 2) [Send_lock None]) (Manager_select Case_lock) = None"
    and "rel_option like_zero
           (run (idle 0 (- 2) [Send_lock None]) [Down, Resume 1, Manager_select Case_unlock])
           (run ((idle 0 (- 2) [Send_lock None])\<lparr>max_val := 0\<rparr>)
              [Down, Resume 1, Manager_select Case_unlock])"
    by blast+
  with r re show ?thesis
    by (simp add: eval_defs like_zero_def)
qed

section \<open>The cancellable facade\<close>

text \<open>
  C7. When the lock channel \<open>l\<close> is already closed, \<open>DownChan(l)\<close> followed by its helper's
  receive from \<open>l\<close>, which is ready at once, gives exactly the state that a call of
  \<open>Down\<close> gives: one more goroutine at the send of one release on \<open>s.unlock\<close>.
\<close>

theorem downchan_on_ready_handle:
  "l \<in> set (closed_handles st) \<Longrightarrow>
     run st [DownChan l, Resume (length (tasks st))] = step st Down \<and>
     step st Down = Some (st\<lparr>tasks := tasks st @ [Send_unlock]\<rparr>)"
  by (simp add: resume_def)

theorem downchan_on_ready_handle_witness:
  "run (NewDynaphore 1) [Manager_start, UpChan, Manager_select Case_lock, Resume 0]
     = Some granted \<and>
   0 \<in> set (closed_handles granted) \<and>
   run granted [DownChan 0, Resume 0] = Some (granted\<lparr>tasks := [Send_unlock]\<rparr>) \<and>
   step granted Down = Some (granted\<lparr>tasks := [Send_unlock]\<rparr>) \<and>
   run granted [DownChan 0, Resume 0, Resume 0, Manager_select Case_unlock]
     = Some (granted\<lparr>current := 0\<rparr>) \<and>
   run granted [Down, Resume 0, Manager_select Case_unlock]
     = Some (granted\<lparr>current := 0\<rparr>)"
  using downchan_on_ready_handle [of 0 granted]
  by (simp add: eval_defs)

section \<open>Raising the maximum\<close>

text \<open>
  C3. Take a reachable state of the loop in which the acquirers are blocked
  (\<open>current \<ge> max\<close>), a new maximum \<open>newMax > current\<close> has been delivered, and no release
  is buffered. Left to itself, the manager takes the new maximum and then services
  exactly \<open>min(N, newMax - current)\<close> of the \<open>N\<close> parked acquires, with no release; after
  that no case of its \<open>select\<close> is ready. The \<open>select\<close> has no other choice on the way:
  every sequence of cases it can take from that state is a prefix of this one.
\<close>

theorem raised_max_unblocks:
  assumes "reachable st" and "pc st = Select"
    and "max_val st \<le> current st"
    and "max_chan (dyn st) = Some ch" and "buf ch = [newMax]"
    and "front (unlock (dyn st)) = None"
    and "current st < newMax"
  shows "\<exists>st'. run st (map Manager_select
                  (Case_max # replicate (unblocked st newMax) Case_lock)) = Some st' \<and>
           current st' = current st + int (unblocked st newMax) \<and>
           pending st' + unblocked st newMax = pending st \<and>
           max_val st' = newMax \<and>
           unblocked st newMax = min (pending st) (nat (newMax - current st)) \<and>
           (\<forall>c. step st' (Manager_select c) = None) \<and>
           (\<forall>cs st''. run st (map Manager_select cs) = Some st'' \<longrightarrow>
              prefix cs (Case_max # replicate (unblocked st newMax) Case_lock))"
proof -
  let ?k = "unblocked st newMax"
  let ?st1 = "st\<lparr>dyn := (dyn st)\<lparr>max_chan := dequeue (max_chan (dyn st))\<rparr>,
                  max_val := newMax\<rparr>"
  have k: "?k = min (pending st) (nat (newMax - current st))"
    unfolding unblocked_def by arith
  from assms(1) have nil: "current_chan (dyn st) = None" and lk: "lock (dyn st) \<noteq> None"
    by (simp_all add: reachable_current_nil reachable_lock make_chan_def)
  from assms(4,5) have fr: "front (max_chan (dyn st)) = Some newMax"
    by (simp add: front_def)
  with assms(2) have s1: "step st (Manager_select Case_max) = Some ?st1"
    by (simp add: manager_def)
  from assms(2,4,5,6) nil lk have q1: "quiet ?st1"
    by (simp add: quiet_def front_def dequeue_def)
  have p1: "pending ?st1 = pending st" and c1: "current ?st1 = current st"
    and m1: "max_val ?st1 = newMax"
    by (simp_all add: pending_def)
  from k assms(7) have "int ?k \<le> max_val ?st1 - current ?st1" "?k \<le> pending ?st1"
    by (simp_all add: pending_def)
  from run_grants [OF q1 this] obtain st' where
    r: "run ?st1 (replicate ?k (Manager_select Case_lock)) = Some st'" and q: "quiet st'"
    and c: "current st' = current st + int ?k" and m: "max_val st' = newMax"
    and p: "pending st' + ?k = pending st"
    by (auto simp: pending_def)
  from s1 r have run: "run st (map Manager_select (Case_max # replicate ?k Case_lock)) = Some st'"
    by simp
  from k c m p assms(7) have "max_val st' \<le> current st' \<or> pending st' = 0"
    by (auto simp: min_def split: if_splits)
  with q have stuck: "\<forall>c. step st' (Manager_select c) = None"
    using quiet_stuck by blast
  have uniq: "prefix cs (Case_max # replicate ?k Case_lock)"
    if rc: "run st (map Manager_select cs) = Some st''" for cs st''
  proof (cases cs)
    case Nil
    then show ?thesis by simp
  next
    case (Cons c cs')
    with rc obtain st2 where s2: "step st (Manager_select c) = Some st2"
      and r2: "run st2 (map Manager_select cs') = Some st''"
      by (auto split: option.splits)
    from s2 assms(2,3,6) nil have "c = Case_max"
      by (cases c) (auto simp: manager_def split: if_splits option.splits)
    with s1 s2 have st2: "st2 = ?st1" by simp
    from run_quiet_only_grants [OF q1] r2 st2
    have rep: "cs' = replicate (length cs') Case_lock"
      and l1: "length cs' \<le> nat (max_val ?st1 - current ?st1)"
      and l2: "length cs' \<le> pending ?st1"
      by blast+
    from l1 l2 k have "length cs' \<le> ?k" by (simp add: pending_def)
    then have "replicate ?k Case_lock
                 = replicate (length cs') Case_lock @ replicate (?k - length cs') Case_lock"
      by (simp add: replicate_add [symmetric])
    with rep have "prefix cs' (replicate ?k Case_lock)"
      by (metis prefixI)
    with Cons \<open>c = Case_max\<close> show ?thesis by simp
  qed
  from run c p m k stuck uniq show ?thesis by blast
qed

theorem raised_max_unblocks_witness:
  "run (NewDynaphore 1)
     [Manager_start, Up, Manager_select Case_lock, Up, Up, Up, SetMax 3, Resume 3]
     = Some (delivered 1 1 [Send_lock None, Send_lock None, Send_lock None] 3) \<and>
   reachable (delivered 1 1 [Send_lock None, Send_lock None, Send_lock None] 3) \<and>
   pending (delivered 1 1 [Send_lock None, Send_lock None, Send_lock None] 3) = 3 \<and>
   unblocked (delivered 1 1 [Send_lock None, Send_lock None, Send_lock None] 3) 3 = 2 \<and>
   run (delivered 1 1 [Send_lock None, Send_lock None, Send_lock None] 3)
     (map Manager_select [Case_max, Case_lock, Case_lock])
     = Some (idle 3 3 [Send_lock None]) \<and>
   pending (idle 3 3 [Send_lock None]) = 1 \<and>
   step (idle 3 3 [Send_lock None]) (Manager_select Case_lock) = None"
proof -
  let ?st = "delivered 1 1 [Send_lock None, Send_lock None, Send_lock None] 3"
  have r: "run (NewDynaphore 1)
     [Manager_start, Up, Manager_select Case_lock, Up, Up, Up, SetMax 3, Resume 3] = Some ?st"
    by (simp add: eval_defs)
  have re: "reachable ?st"
    by (rule run_reachable [OF reachable.init r])
  have h: "pc ?st = Select" "max_val ?st \<le> current ?st"
    "max_chan (dyn ?st) = Some \<lparr>cap = 1, buf = [3]\<rparr>" "buf \<lparr>cap = 1::nat, buf = [3::int]\<rparr> = [3]"
    "front (unlock (dyn ?st)) = None" "current ?st < 3"
    by (simp_all add: eval_defs)
  have p: "pending ?st = 3" "pending (idle 3 3 [Send_lock None]) = 1"
    by (simp_all add: eval_defs)
  have k: "unblocked ?st 3 = 2"
    by (simp add: unblocked_def eval_defs)
  have ev: "run ?st (map Manager_select [Case_max, Case_lock, Case_lock])
              = Some (idle 3 3 [Send_lock None])"
    by (simp add: eval_defs)
  have two: "Case_max # replicate 2 Case_lock = [Case_max, Case_lock, Case_lock]"
    by (simp add: numeral_2_eq_2)
  from raised_max_unblocks [OF re h] obtain st' where
    a: "run ?st (map Manager_select (Case_max # replicate (unblocked ?st 3) Case_lock)) = Some st'"
    and b: "\<forall>c. step st' (Manager_select c) = None"
    by blast
  from a have "st' = idle 3 3 [Send_lock None]"
    unfolding k two ev by simp
  with b have "step (idle 3 3 [Send_lock None]) (Manager_select Case_lock) = None"
    by blast
  with r re p k ev show ?thesis
    by blast
qed


end
